theory Spec2Isabelle
  imports Complex_Main
begin

unbundle bit_operations_syntax

section \<open>Circuits as the sources build them\<close>

text \<open>
  Both source files build \<open>QuantumCircuit\<close> objects through the builder methods
  \<open>x\<close>, \<open>h\<close>, \<open>cx\<close>, \<open>mcx\<close>, \<open>barrier\<close>, \<open>compose\<close> and \<open>measure\<close>.
  A circuit is the number of its lines, the number of its readout slots and the ordered
  list of the operations appended so far. Line and slot sizes are naturals: a negative
  size is an error of the constructor, written out where the sources can reach it.
\<close>

datatype gate =
    X nat
  | H nat
  | CX nat nat
  | MCX "nat list" nat
  | Barrier
  | Measure nat nat

record circuit =
  num_qubits :: nat
  num_clbits :: nat
  data :: "gate list"

datatype error = ValueError | CircuitError | TypeError | IndexError

definition QuantumCircuit :: "nat \<Rightarrow> nat \<Rightarrow> circuit" where
  "QuantumCircuit q c = \<lparr>num_qubits = q, num_clbits = c, data = []\<rparr>"

definition append_gate :: "circuit \<Rightarrow> gate \<Rightarrow> circuit" where
  "append_gate qc g = qc\<lparr>data := data qc @ [g]\<rparr>"

definition x_gate :: "circuit \<Rightarrow> nat \<Rightarrow> circuit" where
  "x_gate qc q = append_gate qc (X q)"

definition cx_gate :: "circuit \<Rightarrow> nat \<Rightarrow> nat \<Rightarrow> circuit" where
  "cx_gate qc c t = append_gate qc (CX c t)"

definition mcx_gate :: "circuit \<Rightarrow> nat list \<Rightarrow> nat \<Rightarrow> circuit" where
  "mcx_gate qc cs t = append_gate qc (MCX cs t)"

definition barrier :: "circuit \<Rightarrow> circuit" where
  "barrier qc = append_gate qc Barrier"

definition measure_gate :: "circuit \<Rightarrow> nat \<Rightarrow> nat \<Rightarrow> circuit" where
  "measure_gate qc q c = append_gate qc (Measure q c)"

text \<open>\<open>qc.h(range(k))\<close> appends one H per line, in the order of the range.\<close>

definition h_range :: "circuit \<Rightarrow> nat \<Rightarrow> circuit" where
  "h_range qc k = qc\<lparr>data := data qc @ map H [0..<k]\<rparr>"

text \<open>\<open>qc.measure(range(k), range(k))\<close> measures line \<open>i\<close> into slot \<open>i\<close>.\<close>

definition measure_range :: "circuit \<Rightarrow> nat \<Rightarrow> circuit" where
  "measure_range qc k = qc\<lparr>data := data qc @ map (\<lambda>i. Measure i i) [0..<k]\<rparr>"

text \<open>\<open>qc.compose(function, inplace=True)\<close> appends the operations of \<open>function\<close>.\<close>

definition compose :: "circuit \<Rightarrow> circuit \<Rightarrow> circuit" where
  "compose qc function = qc\<lparr>data := data qc @ data function\<rparr>"

subsection \<open>Python's binary formatting\<close>

definition bit_char :: "bool \<Rightarrow> char" where
  "bit_char v = (if v then CHR ''1'' else CHR ''0'')"

text \<open>\<open>f"{state:0b}"\<close>: the binary digits of \<open>state\<close>, most significant first, no padding;
  zero is the one-character string \<open>0\<close>.\<close>

fun bin_str :: "nat \<Rightarrow> string" where
  "bin_str state =
     (if state < 2 then [bit_char (state = 1)]
      else bin_str (state div 2) @ [bit_char (odd state)])"

declare bin_str.simps [simp del]

subsection \<open>deutschJozsaAlgorithm.py\<close>

text \<open>\<open>add_cx\<close>: walk the reversed string with its index, and flip the line of every
  character that is \<open>1\<close>.\<close>

fun add_cx_loop :: "circuit \<Rightarrow> (nat \<times> char) list \<Rightarrow> circuit" where
  "add_cx_loop qc [] = qc"
| "add_cx_loop qc ((qubit, bit_c) # rest) =
     add_cx_loop (if bit_c = CHR ''1'' then x_gate qc qubit else qc) rest"

definition add_cx :: "circuit \<Rightarrow> string \<Rightarrow> circuit" where
  "add_cx qc bit_string = add_cx_loop qc (enumerate 0 (rev bit_string))"

text \<open>The body of the loop over \<open>on_states\<close> in \<open>dj_function\<close> (lines 46 to 51).\<close>

definition on_state_step :: "nat \<Rightarrow> circuit \<Rightarrow> nat \<Rightarrow> circuit" where
  "on_state_step n qc state =
     (let qc = barrier qc;
          qc = add_cx qc (bin_str state);
          qc = mcx_gate qc [0..<n] n;
          qc = add_cx qc (bin_str state)
      in qc)"

text \<open>
  \<open>dj_function\<close> draws two coins and, on the balanced branch, a sample without
  replacement of half of \<open>range(2 ** num_qubits)\<close>. The draws are parameters here:
  \<open>flip_output\<close> is the first coin, \<open>constant\<close> the second, \<open>on_states\<close> the sample;
  \<open>n\<close> is the argument \<open>num_qubits\<close>, any Python integer. The function checks nothing
  itself; what stops it for a negative argument are the calls it makes:
  \<^item> line 25, \<open>QuantumCircuit(num_qubits + 1)\<close>, is refused for a negative size;
  \<^item> line 30, \<open>qc.x(num_qubits)\<close>, is refused for the index \<open>-1\<close> of a circuit without lines;
  \<^item> line 41, \<open>range(2 ** num_qubits)\<close>, is refused for the float \<open>2 ** -1\<close>.
\<close>

definition dj_function :: "int \<Rightarrow> bool \<Rightarrow> bool \<Rightarrow> nat list \<Rightarrow> error + circuit" where
  "dj_function n flip_output constant on_states =
     (if n + 1 < 0 then Inl CircuitError
      else
        let qc = QuantumCircuit (nat (n + 1)) 0
        in if flip_output \<and> n < 0 then Inl CircuitError
           else
             let qc = (if flip_output then x_gate qc (nat n) else qc)
             in if constant then Inr qc
                else if n < 0 then Inl TypeError
                else Inr (barrier (foldl (on_state_step (nat n)) qc on_states)))"

text \<open>What \<open>np.random.choice(range(2 ** n), 2 ** n // 2, replace=False)\<close> can return.\<close>

definition valid_on_states :: "nat \<Rightarrow> nat list \<Rightarrow> bool" where
  "valid_on_states n on_states \<longleftrightarrow>
     distinct on_states \<and> length on_states = 2 ^ n div 2 \<and> list_all (\<lambda>s. s < 2 ^ n) on_states"

text \<open>\<open>compile_circuit\<close>: \<open>n = function.num_qubits - 1\<close> is \<open>-1\<close> for a circuit without
  lines, and \<open>QuantumCircuit(0, -1)\<close> is refused by the constructor.\<close>

definition compile_circuit :: "circuit \<Rightarrow> error + circuit" where
  "compile_circuit function =
     (if num_qubits function = 0 then Inl CircuitError
      else
        let n = num_qubits function - 1;
            qc = QuantumCircuit (n + 1) n;
            qc = x_gate qc n;
            qc = h_range qc (n + 1);
            qc = compose qc function;
            qc = h_range qc n;
            qc = measure_range qc n
        in Inr qc)"


section \<open>The simulation backend\<close>

text \<open>
  Modelled from the spec: the simulation backend (\<open>AerSimulator\<close>) is an external
  collaborator, described by its contract only: it applies a single-line flip, a
  single-line basis change and a flip conditioned on other lines being 1 to an
  amplitude vector, and it samples an outcome by the Born rule. The model is the ideal
  one, with exact amplitudes: a state is a pair \<open>(k, a)\<close> that stands for the vector
  whose amplitude at the basis index \<open>b\<close> is \<open>a b / sqrt 2 ^ k\<close>. Bit \<open>i\<close> of a basis
  index is the value of line \<open>i\<close>.
\<close>

text \<open>The action of the flips on a basis index; the other operations leave it alone.\<close>

fun gate_perm :: "gate \<Rightarrow> nat \<Rightarrow> nat" where
  "gate_perm (X q) b = flip_bit q b"
| "gate_perm (CX c t) b = (if bit b c then flip_bit t b else b)"
| "gate_perm (MCX cs t) b = (if list_all (bit b) cs then flip_bit t b else b)"
| "gate_perm (H q) b = b"
| "gate_perm Barrier b = b"
| "gate_perm (Measure q c) b = b"

text \<open>A basis change has no action on basis indices: a circuit with one has no classical run.\<close>

fun classical :: "gate \<Rightarrow> bool" where
  "classical (H q) = False"
| "classical g = True"

definition perm_run :: "gate list \<Rightarrow> nat \<Rightarrow> nat" where
  "perm_run gs b = foldl (\<lambda>b g. gate_perm g b) b gs"

definition basis_run :: "gate list \<Rightarrow> nat \<Rightarrow> nat option" where
  "basis_run gs b = (if list_all classical gs then Some (perm_run gs b) else None)"

type_synonym state = "nat \<times> (nat \<Rightarrow> int)"

fun apply_gate :: "gate \<Rightarrow> state \<Rightarrow> state" where
  "apply_gate (H q) (k, a) =
     (Suc k, \<lambda>b. a (unset_bit q b) + (if bit b q then - 1 else 1) * a (set_bit q b))"
| "apply_gate g (k, a) = (k, \<lambda>b. a (gate_perm g b))"

definition run_gates :: "gate list \<Rightarrow> state \<Rightarrow> state" where
  "run_gates gs s = foldl (\<lambda>s g. apply_gate g s) s gs"

definition initial :: state where
  "initial = (0, \<lambda>b. if b = 0 then 1 else 0)"

text \<open>The state before the readout. The circuits of both sources measure last, so the
  measurements are read off the final state.\<close>

definition statevector :: "circuit \<Rightarrow> state" where
  "statevector qc = run_gates (data qc) initial"

fun measured_bits :: "gate list \<Rightarrow> nat \<Rightarrow> bool list \<Rightarrow> bool list" where
  "measured_bits [] b cl = cl"
| "measured_bits (Measure q c # gs) b cl = measured_bits gs b (cl[c := bit b q])"
| "measured_bits (g # gs) b cl = measured_bits gs b cl"

text \<open>The memory string of one shot that collapses to the basis index \<open>b\<close>: one character
  per readout slot, slot 0 last.\<close>

definition memory_of :: "circuit \<Rightarrow> nat \<Rightarrow> string" where
  "memory_of qc b =
     map bit_char (rev (measured_bits (data qc) b (replicate (num_clbits qc) False)))"

definition weight :: "circuit \<Rightarrow> (string \<Rightarrow> bool) \<Rightarrow> int" where
  "weight qc E =
     (\<Sum>b\<leftarrow>[0..<2 ^ num_qubits qc]. if E (memory_of qc b) then (snd (statevector qc) b)\<^sup>2 else 0)"

text \<open>The Born probability that the memory string of one shot satisfies \<open>E\<close>.\<close>

definition prob :: "circuit \<Rightarrow> (string \<Rightarrow> bool) \<Rightarrow> real" where
  "prob qc E = real_of_int (weight qc E) / 2 ^ fst (statevector qc)"

text \<open>
  \<open>AerSimulator().run(qc, shots=1, memory=True).result().get_memory()\<close> is a parameter
  \<open>backend\<close> of the procedures that call it: a function from the circuit to the list of
  memory strings. \<open>born_sample qc ms\<close> says that \<open>ms\<close> is an answer the ideal backend can
  give for one shot of \<open>qc\<close>: one string, of positive probability.
\<close>

definition born_sample :: "circuit \<Rightarrow> string list \<Rightarrow> bool" where
  "born_sample qc ms = (case ms of [m] \<Rightarrow> 0 < prob qc (\<lambda>s. s = m) | _ \<Rightarrow> False)"

section \<open>The decision procedures\<close>

definition dj_algorithm :: "(circuit \<Rightarrow> string list) \<Rightarrow> circuit \<Rightarrow> error + string" where
  "dj_algorithm backend function =
     (case compile_circuit function of
        Inl e \<Rightarrow> Inl e
      | Inr qc \<Rightarrow>
          (case backend qc of
             [] \<Rightarrow> Inl IndexError
           | m # _ \<Rightarrow> Inr (if CHR ''1'' \<in> set m then ''balanced'' else ''constant'')))"

text \<open>The circuit of one classical query (lines 89 to 96 of the loop body).\<close>

definition classical_query :: "circuit \<Rightarrow> nat \<Rightarrow> nat \<Rightarrow> circuit" where
  "classical_query function n state =
     (let c = QuantumCircuit (n + 1) 1;
          c = add_cx c (bin_str state);
          c = compose c function;
          c = measure_gate c n 0
      in c)"

fun classical_loop ::
  "(circuit \<Rightarrow> string list) \<Rightarrow> circuit \<Rightarrow> nat \<Rightarrow> nat list \<Rightarrow> nat \<Rightarrow> string list
     \<Rightarrow> error + string \<times> nat" where
  "classical_loop backend function n [] num_queries outputs = Inr (''constant'', num_queries)"
| "classical_loop backend function n (state # rest) num_queries outputs =
     (let c = classical_query function n state;
          num_queries = num_queries + 1
      in case backend c of
           [] \<Rightarrow> Inl IndexError
         | result # _ \<Rightarrow>
             if outputs \<noteq> [] \<and> result \<notin> set outputs then Inr (''balanced'', num_queries)
             else classical_loop backend function n rest num_queries (outputs @ [result]))"

text \<open>\<open>2 ** (n - 1)\<close> is a float for \<open>n < 1\<close>, and \<open>range\<close> refuses it.\<close>

definition dj_classical_algorithm ::
  "(circuit \<Rightarrow> string list) \<Rightarrow> circuit \<Rightarrow> error + string \<times> nat" where
  "dj_classical_algorithm backend function =
     (if num_qubits function < 2 then Inl TypeError
      else
        let n = num_qubits function - 1;
            try_states = [0..<2 ^ (n - 1) + 1]
        in classical_loop backend function n try_states 0 [])"

subsection \<open>deutschsAlgorithm.py\<close>

definition deutsch_function :: "int \<Rightarrow> error + circuit" where
  "deutsch_function case_no =
     (if case_no \<notin> set [1, 2, 3, 4] then Inl ValueError
      else
        let f = QuantumCircuit 2 0
        in Inr (if case_no = 2 then cx_gate f 0 1
                else if case_no = 3 then x_gate (cx_gate f 0 1) 1
                else if case_no = 4 then x_gate f 1
                else f))"

definition deutsch_compile_circuit :: "circuit \<Rightarrow> error + circuit" where
  "deutsch_compile_circuit function =
     (if num_qubits function = 0 then Inl CircuitError
      else
        let n = num_qubits function - 1;
            qc = QuantumCircuit (n + 1) n;
            qc = x_gate qc n;
            qc = h_range qc (n + 1);
            qc = barrier qc;
            qc = compose qc function;
            qc = barrier qc;
            qc = h_range qc n;
            qc = measure_range qc n
        in Inr qc)"

definition deutsch_algorithm :: "(circuit \<Rightarrow> string list) \<Rightarrow> circuit \<Rightarrow> error + string" where
  "deutsch_algorithm backend function =
     (case deutsch_compile_circuit function of
        Inl e \<Rightarrow> Inl e
      | Inr qc \<Rightarrow>
          (case backend qc of
             [] \<Rightarrow> Inl IndexError
           | m # _ \<Rightarrow> Inr (if m = ''0'' then ''constant'' else ''balanced'')))"

text \<open>The padded variant the unpadded string is compared with: \<open>f"{state:0{n}b}"\<close>,
  zero-filled on the left to \<open>n\<close> characters.\<close>

definition pad_bin :: "nat \<Rightarrow> nat \<Rightarrow> string" where
  "pad_bin n state = replicate (n - length (bin_str state)) CHR ''0'' @ bin_str state"

text \<open>Barriers are scheduling marks without action; a circuit without them.\<close>

definition strip_barriers :: "circuit \<Rightarrow> circuit" where
  "strip_barriers qc = qc\<lparr>data := filter (\<lambda>g. g \<noteq> Barrier) (data qc)\<rparr>"

section \<open>Reading an oracle classically\<close>

text \<open>The value of the output line (the last line) after the oracle has run on the basis
  index \<open>x\<close>; \<open>None\<close> when the oracle holds a basis change.\<close>

definition oracle_output :: "circuit \<Rightarrow> nat \<Rightarrow> bool option" where
  "oracle_output function x =
     map_option (\<lambda>b. bit b (num_qubits function - 1)) (basis_run (data function) x)"

text \<open>One round of the loop over \<open>on_states\<close> flips the output line on the inputs whose
  lines all differ from the bits of the pattern \<open>s\<close>.\<close>

definition fires :: "nat \<Rightarrow> nat \<Rightarrow> nat \<Rightarrow> bool" where
  "fires n s b \<longleftrightarrow> list_all (\<lambda>i. bit b i \<noteq> bit s i) [0..<n]"

text \<open>The Boolean function a generated oracle adds to its output line: the first coin,
  changed on the inputs whose complement was sampled.\<close>

definition oracle_fun :: "nat \<Rightarrow> bool \<Rightarrow> bool \<Rightarrow> nat list \<Rightarrow> nat \<Rightarrow> bool" where
  "oracle_fun n flip_output constant on_states x \<longleftrightarrow>
     flip_output \<noteq> (\<not> constant \<and> mask n XOR take_bit n x \<in> set on_states)"

text \<open>The operations that permute the basis indices and undo themselves: a flip, a
  controlled flip whose target is not among its controls, and the barrier. A basis change
  and a measurement are not of this kind.\<close>

fun reversible :: "gate \<Rightarrow> bool" where
  "reversible (X q) = True"
| "reversible (CX c t) = (c \<noteq> t)"
| "reversible (MCX cs t) = (t \<notin> set cs)"
| "reversible Barrier = True"
| "reversible (H q) = False"
| "reversible (Measure q c) = False"

section \<open>The flips of \<open>add_cx\<close>\<close>

lemma perm_run_append: "perm_run (gs @ hs) b = perm_run hs (perm_run gs b)"
  by (simp add: perm_run_def)

lemma perm_run_Nil: "perm_run [] b = b"
  by (simp add: perm_run_def)

lemma perm_run_Cons: "perm_run (g # gs) b = perm_run gs (gate_perm g b)"
  by (simp add: perm_run_def)

lemma add_cx_loop_data:
  "data (add_cx_loop qc ps) = data qc @ map (\<lambda>p. X (fst p)) (filter (\<lambda>p. snd p = CHR ''1'') ps)"
  by (induction qc ps rule: add_cx_loop.induct) (simp_all add: x_gate_def append_gate_def)

lemma add_cx_loop_sizes:
  "num_qubits (add_cx_loop qc ps) = num_qubits qc \<and> num_clbits (add_cx_loop qc ps) = num_clbits qc"
  by (induction qc ps rule: add_cx_loop.induct) (simp_all add: x_gate_def append_gate_def)

lemma enumerate_nth_conv: "enumerate 0 xs = map (\<lambda>i. (i, xs ! i)) [0..<length xs]"
  by (rule nth_equalityI) (simp_all add: nth_enumerate_eq)

lemma add_cx_data:
  "data (add_cx qc s) = data qc @ map X (filter (\<lambda>i. rev s ! i = CHR ''1'') [0..<length s])"
  by (simp add: add_cx_def add_cx_loop_data enumerate_nth_conv filter_map comp_def)

lemma bin_str_nth: "i < length (bin_str s) \<Longrightarrow> rev (bin_str s) ! i = bit_char (bit s i)"
proof (induction s arbitrary: i rule: bin_str.induct)
  case (1 s)
  show ?case
  proof (cases "s < 2")
    case True
    with "1.prems" have "i = 0" by (simp add: bin_str.simps [of s])
    moreover from True have "odd s = (s = 1)" by presburger
    ultimately show ?thesis using True by (simp add: bin_str.simps [of s] bit_0)
  next
    case False
    show ?thesis
    proof (cases i)
      case 0
      with False show ?thesis by (simp add: bin_str.simps [of s] bit_0)
    next
      case (Suc j)
      with False "1.prems" have "j < length (bin_str (s div 2))"
        by (simp add: bin_str.simps [of s])
      with "1.IH" [OF False] have "rev (bin_str (s div 2)) ! j = bit_char (bit (s div 2) j)" .
      with False Suc show ?thesis by (simp add: bin_str.simps [of s] bit_Suc)
    qed
  qed
qed

lemma bin_str_bound: "s < 2 ^ length (bin_str s)"
proof (induction s rule: bin_str.induct)
  case (1 s)
  show ?case
  proof (cases "s < 2")
    case True
    then show ?thesis by (simp add: bin_str.simps [of s])
  next
    case False
    with "1.IH" have "s div 2 < 2 ^ length (bin_str (s div 2))" by simp
    then have "s < 2 * 2 ^ length (bin_str (s div 2))" by linarith
    with False show ?thesis by (simp add: bin_str.simps [of s])
  qed
qed

lemma bit_char_eq_1: "bit_char v = CHR ''1'' \<longleftrightarrow> v"
  by (simp add: bit_char_def)

lemma not_bit_of_bound:
  fixes s :: nat
  assumes "s < 2 ^ m" "m \<le> i"
  shows "\<not> bit s i"
proof -
  from assms(1) have "take_bit m s = s" by (simp add: take_bit_nat_eq_self)
  then have "bit s i = bit (take_bit m s) i" by simp
  with assms(2) show ?thesis by (simp add: bit_take_bit_iff)
qed

lemma filter_bit_upt:
  fixes s :: nat
  assumes "s < 2 ^ m"
  shows "filter (bit s) [0..<m + k] = filter (bit s) [0..<m]"
proof -
  have "\<And>i. i \<in> set [m..<m + k] \<Longrightarrow> \<not> bit s i"
    using assms not_bit_of_bound by simp
  then have "filter (bit s) [m..<m + k] = []"
    by (simp only: filter_empty_conv) blast
  moreover have "[0..<m + k] = [0..<m] @ [m..<m + k]"
    by (rule upt_add_eq_append) simp
  ultimately show ?thesis by (simp only: filter_append append_Nil2)
qed

lemma filter_bit_bound:
  fixes s :: nat
  assumes "s < 2 ^ m" "s < 2 ^ m'"
  shows "filter (bit s) [0..<m] = filter (bit s) [0..<m']"
proof (cases "m \<le> m'")
  case True
  then obtain k where "m' = m + k" using le_Suc_ex by blast
  with assms(1) show ?thesis by (simp add: filter_bit_upt)
next
  case False
  then obtain k where "m = m' + k" using le_Suc_ex [of m' m] by auto
  with assms(2) show ?thesis by (simp add: filter_bit_upt)
qed

lemma add_cx_bin_str_data:
  "data (add_cx qc (bin_str s)) = data qc @ map X (filter (bit s) [0..<length (bin_str s)])"
proof -
  have "\<And>i. i \<in> set [0..<length (bin_str s)] \<Longrightarrow>
          (rev (bin_str s) ! i = CHR ''1'') = bit s i"
    by (simp add: bin_str_nth bit_char_eq_1)
  then have "filter (\<lambda>i. rev (bin_str s) ! i = CHR ''1'') [0..<length (bin_str s)]
      = filter (bit s) [0..<length (bin_str s)]"
    by (rule filter_cong [OF refl])
  then show ?thesis by (simp only: add_cx_data)
qed

lemma add_cx_bin_str_gates:
  assumes "s < 2 ^ n"
  shows "data (add_cx qc (bin_str s)) = data qc @ map X (filter (bit s) [0..<n])"
  using filter_bit_bound [OF bin_str_bound assms] by (simp add: add_cx_bin_str_data)

lemma perm_run_flips_Suc:
  "perm_run (map X (filter (bit s) [0..<Suc m])) b =
     (if bit s m then flip_bit m (perm_run (map X (filter (bit s) [0..<m])) b)
      else perm_run (map X (filter (bit s) [0..<m])) b)"
  by (simp add: perm_run_append perm_run_Cons perm_run_Nil)

lemma flip_xor_take_bit:
  fixes s b :: nat
  assumes "bit s m"
  shows "flip_bit m (b XOR take_bit m s) = b XOR take_bit (Suc m) s"
proof (rule bit_eqI)
  fix i
  consider "i < m" | "i = m" | "m < i" by linarith
  then show "bit (flip_bit m (b XOR take_bit m s)) i = bit (b XOR take_bit (Suc m) s) i"
  proof cases
    case 1
    then show ?thesis by (simp add: bit_flip_bit_iff bit_xor_iff bit_take_bit_iff del: take_bit_Suc)
  next
    case 2
    then show ?thesis using assms by (simp add: bit_flip_bit_iff bit_xor_iff bit_take_bit_iff del: take_bit_Suc)
  next
    case 3
    then show ?thesis by (simp add: bit_flip_bit_iff bit_xor_iff bit_take_bit_iff del: take_bit_Suc)
  qed
qed

lemma take_bit_Suc_unset:
  fixes s :: nat
  assumes "\<not> bit s m"
  shows "take_bit (Suc m) s = take_bit m s"
proof (rule bit_eqI)
  fix i
  show "bit (take_bit (Suc m) s) i = bit (take_bit m s) i"
    using assms by (cases "i = m") (auto simp add: bit_take_bit_iff less_Suc_eq simp del: take_bit_Suc)
qed

lemma perm_run_flips: "perm_run (map X (filter (bit s) [0..<m])) b = b XOR take_bit m s"
proof (induction m)
  case 0
  show ?case by (simp add: perm_run_Nil)
next
  case (Suc m)
  show ?case
  proof (cases "bit s m")
    case True
    have "perm_run (map X (filter (bit s) [0..<Suc m])) b
        = flip_bit m (perm_run (map X (filter (bit s) [0..<m])) b)"
      using True by (simp only: perm_run_flips_Suc if_True)
    also have "\<dots> = flip_bit m (b XOR take_bit m s)"
      by (simp only: Suc.IH)
    also have "\<dots> = b XOR take_bit (Suc m) s"
      using True by (rule flip_xor_take_bit)
    finally show ?thesis .
  next
    case False
    have "perm_run (map X (filter (bit s) [0..<Suc m])) b
        = perm_run (map X (filter (bit s) [0..<m])) b"
      using False by (simp only: perm_run_flips_Suc if_False)
    also have "\<dots> = b XOR take_bit m s"
      by (simp only: Suc.IH)
    also have "\<dots> = b XOR take_bit (Suc m) s"
      using take_bit_Suc_unset [OF False] by (simp only:)
    finally show ?thesis .
  qed
qed


lemma add_cx_loop_eq:
  "add_cx_loop qc ps =
     qc\<lparr>data := data qc @ map (\<lambda>p. X (fst p)) (filter (\<lambda>p. snd p = CHR ''1'') ps)\<rparr>"
  by (induction qc ps rule: add_cx_loop.induct) (simp_all add: x_gate_def append_gate_def)

lemma add_cx_eq:
  "add_cx qc s =
     qc\<lparr>data := data qc @ map X (filter (\<lambda>i. rev s ! i = CHR ''1'') [0..<length s])\<rparr>"
  by (simp add: add_cx_def add_cx_loop_eq enumerate_nth_conv filter_map comp_def)

lemma add_cx_padding: "add_cx qc (replicate k CHR ''0'' @ s) = add_cx qc s"
proof -
  let ?t = "replicate k CHR ''0'' @ s"
  have split: "[0..<length s + k] = [0..<length s] @ [length s..<length s + k]"
    by (rule upt_add_eq_append) simp
  have low: "filter (\<lambda>i. rev ?t ! i = CHR ''1'') [0..<length s]
           = filter (\<lambda>i. rev s ! i = CHR ''1'') [0..<length s]"
    by (rule filter_cong [OF refl]) (simp add: nth_append)
  have "\<And>i. i \<in> set [length s..<length s + k] \<Longrightarrow> rev ?t ! i \<noteq> CHR ''1''"
  proof -
    fix i
    assume "i \<in> set [length s..<length s + k]"
    then have "length s \<le> i" "i - length s < k" by auto
    then show "rev ?t ! i \<noteq> CHR ''1''" by (simp add: nth_append)
  qed
  then have high: "filter (\<lambda>i. rev ?t ! i = CHR ''1'') [length s..<length s + k] = []"
    by (simp only: filter_empty_conv) blast
  have len: "length ?t = length s + k" by simp
  have "filter (\<lambda>i. rev ?t ! i = CHR ''1'') [0..<length ?t]
      = filter (\<lambda>i. rev s ! i = CHR ''1'') [0..<length s]"
    by (simp only: len split filter_append low high append_Nil2)
  then show ?thesis by (simp only: add_cx_eq)
qed

lemma classical_flips: "list_all classical (map X is)"
  by (induction "is") simp_all

lemma basis_run_add_cx:
  "basis_run (data (add_cx (QuantumCircuit m c) (bin_str s))) b = Some (b XOR s)"
proof -
  have "take_bit (length (bin_str s)) s = s"
    using bin_str_bound by (simp add: take_bit_nat_eq_self)
  then show ?thesis
    by (simp add: basis_run_def add_cx_bin_str_data QuantumCircuit_def classical_flips
        perm_run_flips)
qed

text \<open>
  Claim C10. For every \<open>state < 2 ^ n\<close>, \<open>add_cx\<close> with the unpadded binary string of
  \<open>state\<close> appends exactly one flip per 1-bit of \<open>state\<close>, on the line of that bit, in
  increasing order: line \<open>i\<close> is flipped iff bit \<open>i\<close> of \<open>state\<close> is 1. Padding the
  string with zeros to \<open>n\<close> characters gives the same circuit, the flips turn the basis
  input \<open>b\<close> into \<open>b XOR state\<close>, and applying \<open>add_cx\<close> twice restores the input.
\<close>

theorem add_cx_unpadded:
  assumes "state < 2 ^ n"
  shows "data (add_cx qc (bin_str state)) = data qc @ map X (filter (bit state) [0..<n])
       \<and> add_cx qc (bin_str state) = add_cx qc (pad_bin n state)
       \<and> basis_run (data (add_cx (QuantumCircuit m c) (bin_str state))) b = Some (b XOR state)
       \<and> basis_run
           (data (add_cx (add_cx (QuantumCircuit m c) (bin_str state)) (bin_str state))) b
         = Some b"
proof (intro conjI)
  show "data (add_cx qc (bin_str state)) = data qc @ map X (filter (bit state) [0..<n])"
    using assms by (rule add_cx_bin_str_gates)
  show "add_cx qc (bin_str state) = add_cx qc (pad_bin n state)"
    by (simp only: pad_bin_def add_cx_padding)
  show "basis_run (data (add_cx (QuantumCircuit m c) (bin_str state))) b = Some (b XOR state)"
    by (rule basis_run_add_cx)
  have "data (add_cx (add_cx (QuantumCircuit m c) (bin_str state)) (bin_str state))
      = map X (filter (bit state) [0..<length (bin_str state)])
        @ map X (filter (bit state) [0..<length (bin_str state)])"
    by (simp add: add_cx_bin_str_data QuantumCircuit_def)
  moreover have "take_bit (length (bin_str state)) state = state"
    using bin_str_bound by (simp add: take_bit_nat_eq_self)
  ultimately show "basis_run
      (data (add_cx (add_cx (QuantumCircuit m c) (bin_str state)) (bin_str state))) b = Some b"
    by (simp add: basis_run_def classical_flips perm_run_append perm_run_flips xor.assoc)
qed

theorem add_cx_unpadded_witness:
  "(5::nat) < 2 ^ 3
   \<and> data (add_cx (QuantumCircuit 4 0) (bin_str 5)) = [X 0, X 2]
   \<and> add_cx (QuantumCircuit 4 0) (bin_str 5) = add_cx (QuantumCircuit 4 0) (pad_bin 3 5)
   \<and> basis_run (data (add_cx (QuantumCircuit 4 0) (bin_str 5))) 1 = Some 4"
proof -
  have h: "(5::nat) < 2 ^ 3" by simp
  have gates: "map X (filter (bit (5::nat)) [0..<3]) = [X 0, X 2]" by code_simp
  have xor_val: "(1::nat) XOR 5 = 4" by code_simp
  have empty: "data (QuantumCircuit 4 0) = []" by (simp add: QuantumCircuit_def)
  note inst = add_cx_unpadded [OF h, of "QuantumCircuit 4 0" 4 0 1]
  have c1: "data (add_cx (QuantumCircuit 4 0) (bin_str 5))
      = data (QuantumCircuit 4 0) @ map X (filter (bit (5::nat)) [0..<3])"
    by (rule conjunct1 [OF inst])
  have c3: "basis_run (data (add_cx (QuantumCircuit 4 0) (bin_str 5))) 1 = Some (1 XOR 5)"
    by (rule conjunct1 [OF conjunct2 [OF conjunct2 [OF inst]]])
  have "data (add_cx (QuantumCircuit 4 0) (bin_str 5)) = [X 0, X 2]"
    by (simp only: c1 gates empty append_Nil)
  moreover
  have "add_cx (QuantumCircuit 4 0) (bin_str 5) = add_cx (QuantumCircuit 4 0) (pad_bin 3 5)"
    by (rule conjunct1 [OF conjunct2 [OF inst]])
  moreover
  have "basis_run (data (add_cx (QuantumCircuit 4 0) (bin_str 5))) 1 = Some 4"
    by (simp only: c3 xor_val)
  ultimately show ?thesis using h by (intro conjI)
qed

section \<open>The compilation protocol\<close>

lemma apply_gate_Barrier: "apply_gate Barrier s = s"
  by (cases s) simp

lemma run_gates_strip: "run_gates (filter (\<lambda>g. g \<noteq> Barrier) gs) s = run_gates gs s"
  unfolding run_gates_def by (induction gs arbitrary: s) (simp_all add: apply_gate_Barrier)

lemma measured_bits_strip:
  "measured_bits (filter (\<lambda>g. g \<noteq> Barrier) gs) b cl = measured_bits gs b cl"
  by (induction gs b cl rule: measured_bits.induct) simp_all

lemma statevector_strip: "statevector (strip_barriers qc) = statevector qc"
  by (simp add: statevector_def strip_barriers_def run_gates_strip)

lemma memory_of_strip: "memory_of (strip_barriers qc) b = memory_of qc b"
  by (simp add: memory_of_def strip_barriers_def measured_bits_strip)

lemma num_qubits_strip: "num_qubits (strip_barriers qc) = num_qubits qc"
  by (simp add: strip_barriers_def)

lemma prob_strip: "prob (strip_barriers qc) E = prob qc E"
  unfolding prob_def weight_def statevector_strip memory_of_strip num_qubits_strip ..

text \<open>
  Claim C8. The compilation protocol of the 1-bit and of the n-bit implementation is the
  same: for every oracle of \<open>n + 1\<close> lines both \<open>compile_circuit\<close> functions succeed, and
  their circuits are equal once the barriers are removed: flip line \<open>n\<close>, a basis change
  on lines \<open>0..n\<close>, the oracle once, a basis change on lines \<open>0..n-1\<close>, and the
  measurement of line \<open>i\<close> into slot \<open>i\<close> for \<open>i < n\<close>. Barriers have no action, so both
  circuits give every readout event the same probability.
\<close>

theorem compile_circuit_same_protocol:
  assumes "num_qubits function = n + 1"
  shows "\<exists>qd qj. deutsch_compile_circuit function = Inr qd \<and> compile_circuit function = Inr qj
           \<and> strip_barriers qd = strip_barriers qj
           \<and> num_qubits qj = n + 1 \<and> num_clbits qj = n
           \<and> data (strip_barriers qj) =
               [X n] @ map H [0..<n + 1] @ filter (\<lambda>g. g \<noteq> Barrier) (data function)
               @ map H [0..<n] @ map (\<lambda>i. Measure i i) [0..<n]
           \<and> (\<forall>E. prob qd E = prob qj E)"
proof -
  let ?qd = "projr (deutsch_compile_circuit function)"
  let ?qj = "projr (compile_circuit function)"
  have d: "deutsch_compile_circuit function = Inr ?qd"
    using assms by (simp add: deutsch_compile_circuit_def)
  have j: "compile_circuit function = Inr ?qj"
    using assms by (simp add: compile_circuit_def)
  have same: "strip_barriers ?qd = strip_barriers ?qj"
    using assms
    by (simp add: deutsch_compile_circuit_def compile_circuit_def strip_barriers_def Let_def
        QuantumCircuit_def x_gate_def barrier_def append_gate_def h_range_def compose_def
        measure_range_def)
  have shape: "num_qubits ?qj = n + 1 \<and> num_clbits ?qj = n
     \<and> data (strip_barriers ?qj) =
               [X n] @ map H [0..<n + 1] @ filter (\<lambda>g. g \<noteq> Barrier) (data function)
               @ map H [0..<n] @ map (\<lambda>i. Measure i i) [0..<n]"
    using assms
    by (simp add: compile_circuit_def strip_barriers_def Let_def
        QuantumCircuit_def x_gate_def append_gate_def h_range_def compose_def
        measure_range_def filter_empty_conv)
  have "\<forall>E. prob ?qd E = prob ?qj E"
  proof
    fix E
    have "prob ?qd E = prob (strip_barriers ?qd) E" by (simp only: prob_strip)
    also have "\<dots> = prob (strip_barriers ?qj) E" by (simp only: same)
    also have "\<dots> = prob ?qj E" by (simp only: prob_strip)
    finally show "prob ?qd E = prob ?qj E" .
  qed
  with d j same shape show ?thesis by blast
qed

theorem compile_circuit_same_protocol_witness:
  "num_qubits (QuantumCircuit 2 0) = 1 + 1
   \<and> (\<exists>qd qj. deutsch_compile_circuit (QuantumCircuit 2 0) = Inr qd
        \<and> compile_circuit (QuantumCircuit 2 0) = Inr qj
        \<and> data qd = [X 1, H 0, H 1, Barrier, Barrier, H 0, Measure 0 0]
        \<and> data qj = [X 1, H 0, H 1, H 0, Measure 0 0]
        \<and> strip_barriers qd = strip_barriers qj
        \<and> (\<forall>E. prob qd E = prob qj E))"
proof -
  have h: "num_qubits (QuantumCircuit 2 0) = 1 + 1" by (simp add: QuantumCircuit_def)
  from compile_circuit_same_protocol [OF h]
  obtain qd qj where r: "deutsch_compile_circuit (QuantumCircuit 2 0) = Inr qd"
    "compile_circuit (QuantumCircuit 2 0) = Inr qj" "strip_barriers qd = strip_barriers qj"
    "\<forall>E. prob qd E = prob qj E" by blast
  have "data qd = [X 1, H 0, H 1, Barrier, Barrier, H 0, Measure 0 0]"
    using r(1) by (auto simp add: deutsch_compile_circuit_def Let_def
        QuantumCircuit_def x_gate_def barrier_def append_gate_def h_range_def compose_def
        measure_range_def)
  moreover have "data qj = [X 1, H 0, H 1, H 0, Measure 0 0]"
    using r(2) by (auto simp add: compile_circuit_def Let_def
        QuantumCircuit_def x_gate_def append_gate_def h_range_def compose_def
        measure_range_def)
  ultimately show ?thesis using h r by blast
qed

section \<open>Oracle generation\<close>

text \<open>
  Claim C3, at the input \<open>n = 2\<close>, pattern \<open>1\<close> (the string 01): the appended operations
  flip line 0, the line where the pattern has a 1-bit, around the controlled flip. Run on
  the input equal to the pattern (basis index 1) the output line 2 stays 0; run on the
  complement of the pattern (basis index 2) the output line is flipped (index 6). The
  comment in the source asks for a flip where the inputs match the pattern.
\<close>

theorem on_state_step_misses_pattern:
  "data (on_state_step 2 (QuantumCircuit 3 0) 1) = [Barrier, X 0, MCX [0, 1] 2, X 0]
   \<and> basis_run (data (on_state_step 2 (QuantumCircuit 3 0) 1)) 1 = Some 1
   \<and> basis_run (data (on_state_step 2 (QuantumCircuit 3 0) 1)) 2 = Some 6"
  by code_simp

subsection \<open>The size of a generated oracle\<close>

lemma on_state_step_sizes:
  "num_qubits (on_state_step n qc s) = num_qubits qc
   \<and> num_clbits (on_state_step n qc s) = num_clbits qc"
  by (simp add: on_state_step_def Let_def add_cx_eq barrier_def mcx_gate_def append_gate_def)

lemma foldl_on_state_step_sizes:
  "num_qubits (foldl (on_state_step n) qc ss) = num_qubits qc
   \<and> num_clbits (foldl (on_state_step n) qc ss) = num_clbits qc"
  by (induction ss arbitrary: qc) (simp_all add: on_state_step_sizes)

text \<open>For a natural argument no call of \<open>dj_function\<close> is refused.\<close>

lemma dj_function_nat:
  "dj_function (int n) flip_output constant ss =
     Inr (let qc = QuantumCircuit (n + 1) 0;
              qc = (if flip_output then x_gate qc n else qc)
          in if constant then qc else barrier (foldl (on_state_step n) qc ss))"
  by (simp add: dj_function_def Let_def nat_add_distrib)

lemma dj_function_returns:
  "dj_function (int n) flip_output constant ss =
     Inr (projr (dj_function (int n) flip_output constant ss))"
  by (simp only: dj_function_nat sum.sel)

lemma dj_function_sizes:
  "num_qubits (projr (dj_function (int n) flip_output constant ss)) = n + 1
   \<and> num_clbits (projr (dj_function (int n) flip_output constant ss)) = 0"
  by (simp add: dj_function_nat Let_def foldl_on_state_step_sizes QuantumCircuit_def x_gate_def
      barrier_def append_gate_def)

subsection \<open>Refused parameters\<close>

text \<open>
  Claim C7 says that an oracle requested with \<open>n < 1\<close> is refused. \<open>dj_function\<close> checks
  nothing: for \<open>n = 0\<close> it returns an oracle of one line, whatever the coins show (the
  sample of half of \<open>range(1)\<close> is empty).
\<close>

theorem dj_function_zero_lines:
  "dj_function 0 False True [] = Inr \<lparr>num_qubits = 1, num_clbits = 0, data = []\<rparr>
   \<and> dj_function 0 True True [] = Inr \<lparr>num_qubits = 1, num_clbits = 0, data = [X 0]\<rparr>
   \<and> dj_function 0 False False [] = Inr \<lparr>num_qubits = 1, num_clbits = 0, data = [Barrier]\<rparr>
   \<and> dj_function 0 True False [] =
       Inr \<lparr>num_qubits = 1, num_clbits = 0, data = [X 0, Barrier]\<rparr>
   \<and> valid_on_states 0 []"
  by (simp add: dj_function_def valid_on_states_def QuantumCircuit_def x_gate_def barrier_def
      append_gate_def)

text \<open>
  Claim C7, amended. An error is raised before any oracle is built, whatever the draws,
  in exactly two situations: \<open>dj_function\<close> is called with \<open>n \<le> -2\<close> (the constructor
  refuses the negative size \<open>n + 1\<close>: \<open>CircuitError\<close>), or \<open>deutsch_function\<close> is called
  with a case selector outside \<open>{1, 2, 3, 4}\<close> (\<open>ValueError\<close>). In every other situation:
  \<^item> for \<open>n \<ge> 0\<close>, also \<open>n = 0\<close>, \<open>dj_function\<close> returns an oracle of \<open>n + 1\<close> lines;
  \<^item> for \<open>n = -1\<close> the circuit without lines is built first, and the draws decide: with
    the output flip the flip is refused (\<open>CircuitError\<close>), without it the constant branch
    returns the empty circuit and the balanced branch fails on the range (\<open>TypeError\<close>);
  \<^item> for a selector in \<open>{1, 2, 3, 4}\<close>, \<open>deutsch_function\<close> returns an oracle of two lines.
\<close>

theorem invalid_parameter_situations:
  "((\<forall>flip constant_drawn sample. \<exists>e. dj_function n flip constant_drawn sample = Inl e)
      \<longleftrightarrow> n \<le> - 2)
   \<and> (n \<le> - 2 \<longrightarrow> dj_function n flip_output constant on_states = Inl CircuitError)
   \<and> (n = - 1 \<longrightarrow>
        dj_function n flip_output constant on_states =
          (if flip_output then Inl CircuitError
           else if constant then Inr (QuantumCircuit 0 0)
           else Inl TypeError))
   \<and> (0 \<le> n \<longrightarrow>
        (\<exists>f. dj_function n flip_output constant on_states = Inr f
           \<and> num_qubits f = nat n + 1))
   \<and> (deutsch_function case_no = Inl e \<longleftrightarrow> case_no \<notin> {1, 2, 3, 4} \<and> e = ValueError)
   \<and> (case_no \<in> {1, 2, 3, 4} \<longrightarrow>
        (\<exists>f. deutsch_function case_no = Inr f \<and> num_qubits f = 2))"
proof -
  have low: "dj_function n f c ss = Inl CircuitError" if "n \<le> - 2" for f c ss
    using that by (simp add: dj_function_def)
  have mid: "dj_function n f c ss =
      (if f then Inl CircuitError else if c then Inr (QuantumCircuit 0 0) else Inl TypeError)"
    if "n = - 1" for f c ss
    using that by (simp add: dj_function_def)
  have high: "\<exists>g. dj_function n f c ss = Inr g \<and> num_qubits g = nat n + 1"
    if "0 \<le> n" for f c ss
  proof -
    from that obtain m where m: "n = int m" by (metis nonneg_int_cases)
    show ?thesis
      unfolding m using dj_function_returns [of m f c ss] dj_function_sizes [of m f c ss]
      by auto
  qed
  have always: "(\<forall>f c ss. \<exists>e. dj_function n f c ss = Inl e) \<longleftrightarrow> n \<le> - 2"
  proof
    assume all: "\<forall>f c ss. \<exists>e. dj_function n f c ss = Inl e"
    show "n \<le> - 2"
    proof (rule ccontr)
      assume "\<not> n \<le> - 2"
      then consider "n = - 1" | "0 \<le> n" by linarith
      then show False
      proof cases
        case 1
        from all obtain e where "dj_function n False True [] = Inl e" by blast
        with mid [OF 1, of False True "[]"] show False by simp
      next
        case 2
        from all obtain e where "dj_function n False True [] = Inl e" by blast
        with high [OF 2, of False True "[]"] show False by auto
      qed
    qed
  next
    assume "n \<le> - 2"
    then show "\<forall>f c ss. \<exists>e. dj_function n f c ss = Inl e" using low by blast
  qed
  have d1: "deutsch_function case_no = Inl e \<longleftrightarrow> case_no \<notin> {1, 2, 3, 4} \<and> e = ValueError"
    by (auto simp add: deutsch_function_def Let_def)
  have d2: "case_no \<in> {1, 2, 3, 4} \<longrightarrow>
        (\<exists>f. deutsch_function case_no = Inr f \<and> num_qubits f = 2)"
    by (auto simp add: deutsch_function_def Let_def QuantumCircuit_def x_gate_def cx_gate_def
        append_gate_def)
  from always low mid high d1 d2 show ?thesis by blast
qed

theorem invalid_parameter_situations_witness:
  "(- 2 :: int) \<le> - 2 \<and> dj_function (- 2) True False [] = Inl CircuitError
   \<and> dj_function (- 1) True True [] = Inl CircuitError
   \<and> dj_function (- 1) False True [] = Inr (QuantumCircuit 0 0)
   \<and> dj_function (- 1) False False [] = Inl TypeError
   \<and> (0 :: int) \<le> 1 \<and> (\<exists>f. dj_function 1 False False [0] = Inr f \<and> num_qubits f = nat 1 + 1)
   \<and> (5 :: int) \<notin> {1, 2, 3, 4} \<and> deutsch_function 5 = Inl ValueError
   \<and> (2 :: int) \<in> {1, 2, 3, 4} \<and> (\<exists>f. deutsch_function 2 = Inr f \<and> num_qubits f = 2)"
  using invalid_parameter_situations [of "- 2" True False "[]" 5 ValueError]
    invalid_parameter_situations [of "- 1" True True "[]" 5 ValueError]
    invalid_parameter_situations [of "- 1" False True "[]" 5 ValueError]
    invalid_parameter_situations [of "- 1" False False "[]" 5 ValueError]
    invalid_parameter_situations [of 1 False False "[0]" 2 ValueError]
  by simp

section \<open>The balanced invariant\<close>

lemma on_state_step_data:
  "data (on_state_step n qc s) =
     data qc @ [Barrier] @ map X (filter (bit s) [0..<length (bin_str s)])
       @ [MCX [0..<n] n] @ map X (filter (bit s) [0..<length (bin_str s)])"
  by (simp add: on_state_step_def Let_def add_cx_bin_str_data barrier_def mcx_gate_def
      append_gate_def)

lemma foldl_on_state_step_data:
  "data (foldl (on_state_step n) qc ss) =
     data qc @ concat (map (\<lambda>s. data (on_state_step n (QuantumCircuit 0 0) s)) ss)"
  by (induction ss arbitrary: qc) (simp_all add: on_state_step_data QuantumCircuit_def)

lemma flip_bit_xor_commute:
  fixes b s :: nat
  shows "flip_bit n b XOR s = flip_bit n (b XOR s)"
  by (rule bit_eqI) (auto simp add: bit_flip_bit_iff bit_xor_iff)

lemma xor_twice:
  fixes b s :: nat
  shows "(b XOR s) XOR s = b"
  by (simp add: xor.assoc)

lemma list_all_upt: "list_all P [0..<n] \<longleftrightarrow> (\<forall>i<n. P i)"
  by (auto simp add: list_all_iff)

lemma fires_iff: "fires n s b \<longleftrightarrow> (\<forall>i<n. bit b i \<noteq> bit s i)"
  by (simp add: fires_def list_all_upt)

text \<open>The controlled flip of one loop round fires where the input is the complement of the pattern.\<close>

lemma perm_run_on_state_step:
  shows "perm_run (data (on_state_step n (QuantumCircuit 0 0) s)) b =
           (if \<forall>i<n. bit b i \<noteq> bit s i then flip_bit n b else b)"
proof -
  have tb: "take_bit (length (bin_str s)) s = s"
    using bin_str_bound by (simp add: take_bit_nat_eq_self)
  have cond: "list_all (bit (b XOR s)) [0..<n] \<longleftrightarrow> (\<forall>i<n. bit b i \<noteq> bit s i)"
    by (simp add: list_all_upt bit_xor_iff)
  have "perm_run (data (on_state_step n (QuantumCircuit 0 0) s)) b =
      (if list_all (bit (b XOR s)) [0..<n] then flip_bit n (b XOR s) else b XOR s) XOR s"
    by (simp add: on_state_step_data QuantumCircuit_def perm_run_append perm_run_Cons perm_run_Nil
        perm_run_flips tb)
  also have "\<dots> = (if \<forall>i<n. bit b i \<noteq> bit s i then flip_bit n b else b)"
    by (auto simp add: cond flip_bit_xor_commute [symmetric] xor_twice)
  finally show ?thesis .
qed


lemma fires_flip_bit: "fires n s (flip_bit n b) = fires n s b"
  by (auto simp add: fires_iff bit_flip_bit_iff)

lemma flip_bit_twice:
  fixes b :: nat
  shows "flip_bit n (flip_bit n b) = b"
  by (rule bit_eqI) (auto simp add: bit_flip_bit_iff)

lemma perm_run_round:
  "perm_run (data (on_state_step n (QuantumCircuit 0 0) s)) b =
     (if fires n s b then flip_bit n b else b)"
  by (simp only: perm_run_on_state_step fires_iff)

lemma perm_run_rounds:
  "perm_run (concat (map (\<lambda>s. data (on_state_step n (QuantumCircuit 0 0) s)) ss)) b =
     (if odd (length (filter (\<lambda>s. fires n s b) ss)) then flip_bit n b else b)"
proof (induction ss arbitrary: b)
  case Nil
  show ?case by (simp add: perm_run_Nil)
next
  case (Cons s ss)
  show ?case
  proof (cases "fires n s b")
    case True
    then show ?thesis
      by (simp add: perm_run_append perm_run_round Cons.IH fires_flip_bit flip_bit_twice)
  next
    case False
    then show ?thesis
      by (simp add: perm_run_append perm_run_round Cons.IH)
  qed
qed

lemma fires_iff_complement:
  fixes s b :: nat
  assumes "s < 2 ^ n"
  shows "fires n s b \<longleftrightarrow> s = mask n XOR take_bit n b"
proof
  assume "fires n s b"
  then have h: "\<forall>i<n. bit b i \<noteq> bit s i" by (simp only: fires_iff)
  show "s = mask n XOR take_bit n b"
  proof (rule bit_eqI)
    fix i
    show "bit s i = bit (mask n XOR take_bit n b) i"
    proof (cases "i < n")
      case True
      with h show ?thesis by (auto simp add: bit_xor_iff bit_mask_iff bit_take_bit_iff)
    next
      case False
      with assms have "\<not> bit s i" using not_bit_of_bound [of s n i] by simp
      with False show ?thesis by (simp add: bit_xor_iff bit_mask_iff bit_take_bit_iff)
    qed
  qed
next
  assume "s = mask n XOR take_bit n b"
  then show "fires n s b"
    by (simp add: fires_iff bit_xor_iff bit_mask_iff bit_take_bit_iff)
qed

lemma length_filter_eq_distinct:
  "distinct xs \<Longrightarrow> length (filter (\<lambda>x. x = c) xs) = (if c \<in> set xs then 1 else 0)"
  by (induction xs) auto

lemma rounds_count:
  fixes ss :: "nat list"
  assumes "distinct ss" "list_all (\<lambda>s. s < 2 ^ n) ss"
  shows "length (filter (\<lambda>s. fires n s b) ss)
       = (if mask n XOR take_bit n b \<in> set ss then 1 else 0)"
proof -
  have "\<And>s. s \<in> set ss \<Longrightarrow> fires n s b = (s = mask n XOR take_bit n b)"
    using assms(2) by (simp add: list_all_iff fires_iff_complement)
  then have "filter (\<lambda>s. fires n s b) ss = filter (\<lambda>s. s = mask n XOR take_bit n b) ss"
    by (rule filter_cong [OF refl])
  then show ?thesis using assms(1) by (simp only: length_filter_eq_distinct)
qed

lemma dj_function_data:
  "data (projr (dj_function (int n) flip_output constant ss)) =
     (if flip_output then [X n] else [])
     @ (if constant then []
        else concat (map (\<lambda>s. data (on_state_step n (QuantumCircuit 0 0) s)) ss) @ [Barrier])"
  by (simp add: dj_function_nat Let_def foldl_on_state_step_data QuantumCircuit_def x_gate_def
      barrier_def append_gate_def)

lemma take_bit_flip_bit_same:
  fixes b :: nat
  shows "take_bit n (flip_bit n b) = take_bit n b"
  by (rule bit_eqI) (auto simp add: bit_flip_bit_iff bit_take_bit_iff)

text \<open>The generated oracle adds \<open>oracle_fun\<close> of the input lines to the output line.\<close>

lemma perm_run_dj_function:
  assumes "distinct ss" "list_all (\<lambda>s. s < 2 ^ n) ss"
  shows "perm_run (data (projr (dj_function (int n) flip_output constant ss))) b =
           (if oracle_fun n flip_output constant ss b then flip_bit n b else b)"
proof -
  have pre: "perm_run (if flip_output then [X n] else []) b
           = (if flip_output then flip_bit n b else b)"
    by (simp add: perm_run_Cons perm_run_Nil)
  show ?thesis
  proof (cases "constant")
    case True
    then show ?thesis
      by (simp add: dj_function_data oracle_fun_def perm_run_Cons perm_run_Nil)
  next
    case False
    have cnt: "odd (length (filter (\<lambda>s. fires n s c) ss))
        \<longleftrightarrow> mask n XOR take_bit n c \<in> set ss" for c :: nat
      by (simp add: rounds_count [OF assms])
    from False show ?thesis
      by (simp add: dj_function_data oracle_fun_def perm_run_append pre perm_run_rounds cnt
          perm_run_Cons perm_run_Nil take_bit_flip_bit_same flip_bit_twice)
  qed
qed

lemma classical_on_state_step:
  "list_all classical (data (on_state_step n (QuantumCircuit 0 0) s))"
  by (simp add: on_state_step_data QuantumCircuit_def classical_flips)

lemma classical_dj_function:
  "list_all classical (data (projr (dj_function (int n) flip_output constant ss)))"
  using classical_on_state_step by (auto simp add: dj_function_data list_all_iff)

lemma oracle_output_dj_function:
  assumes "distinct ss" "list_all (\<lambda>s. s < 2 ^ n) ss" "x < 2 ^ n"
  shows "oracle_output (projr (dj_function (int n) flip_output constant ss)) x
       = Some (oracle_fun n flip_output constant ss x)"
proof -
  have "\<not> bit x n" using assms(3) not_bit_of_bound [of x n n] by simp
  then show ?thesis
    by (simp add: oracle_output_def basis_run_def classical_dj_function dj_function_sizes
        perm_run_dj_function [OF assms(1,2)] bit_flip_bit_iff)
qed


lemma xor_mask_less:
  fixes s :: nat
  shows "mask n XOR take_bit n s < 2 ^ n"
proof -
  have "take_bit n (mask n XOR take_bit n s) = mask n XOR take_bit n s"
    by (rule bit_eqI) (auto simp add: bit_take_bit_iff bit_xor_iff bit_mask_iff)
  then show ?thesis by (metis take_bit_nat_less_exp)
qed

lemma xor_mask_twice:
  fixes s :: nat
  shows "mask n XOR (mask n XOR s) = s"
  by (simp add: xor.assoc [symmetric])

lemma count_complements:
  fixes ss :: "nat list"
  assumes "distinct ss" "list_all (\<lambda>s. s < 2 ^ n) ss"
  shows "length (filter (\<lambda>x. mask n XOR take_bit n x \<in> set ss) [0..<2 ^ n]) = length ss"
proof -
  let ?c = "\<lambda>x::nat. mask n XOR x"
  have in_range: "\<And>s. s \<in> set ss \<Longrightarrow> take_bit n s = s"
    using assms(2) by (simp add: list_all_iff take_bit_nat_eq_self)
  have "{x. x < 2 ^ n \<and> mask n XOR take_bit n x \<in> set ss} = ?c ` set ss"
  proof (intro set_eqI iffI)
    fix x
    assume "x \<in> {x. x < 2 ^ n \<and> mask n XOR take_bit n x \<in> set ss}"
    then have lt: "x < 2 ^ n" and m: "mask n XOR take_bit n x \<in> set ss" by simp_all
    from lt have "take_bit n x = x" by (simp add: take_bit_nat_eq_self)
    with lt m have a: "x < 2 ^ n" "?c x \<in> set ss" by simp_all
    have "x = ?c (?c x)" by (simp only: xor_mask_twice)
    with a(2) show "x \<in> ?c ` set ss" by blast
  next
    fix x
    assume "x \<in> ?c ` set ss"
    then obtain s where s: "s \<in> set ss" "x = ?c s" by blast
    have tbs: "take_bit n s = s" using s(1) by (rule in_range)
    have lt: "x < 2 ^ n" using xor_mask_less [of n s] by (simp only: tbs s(2))
    then have "take_bit n x = x" by (simp add: take_bit_nat_eq_self)
    then have "mask n XOR take_bit n x = s"
      by (simp only: s(2) xor_mask_twice)
    note lt
    moreover note \<open>mask n XOR take_bit n x = s\<close>
    ultimately show "x \<in> {x. x < 2 ^ n \<and> mask n XOR take_bit n x \<in> set ss}"
      using s(1) by simp
  qed
  moreover have "inj_on ?c (set ss)"
    by (rule inj_onI) (metis xor_mask_twice)
  ultimately have "card {x. x < 2 ^ n \<and> mask n XOR take_bit n x \<in> set ss} = card (set ss)"
    by (simp add: card_image)
  moreover have "length (filter (\<lambda>x. mask n XOR take_bit n x \<in> set ss) [0..<2 ^ n])
      = card {x. x < 2 ^ n \<and> mask n XOR take_bit n x \<in> set ss}"
  proof -
    have "{x. mask n XOR take_bit n x \<in> set ss} \<inter> set [0..<2 ^ n]
        = {x. x < 2 ^ n \<and> mask n XOR take_bit n x \<in> set ss}"
      by auto
    then show ?thesis by (simp add: distinct_length_filter)
  qed
  ultimately show ?thesis using assms(1) by (simp add: distinct_card)
qed

lemma half_of_power:
  assumes "1 \<le> n"
  shows "(2::nat) ^ n - 2 ^ n div 2 = 2 ^ n div 2"
proof -
  from assms obtain m where "n = Suc m" by (cases n) auto
  then show ?thesis by simp
qed

text \<open>
  Claim C2. For every \<open>n \<ge> 1\<close> and every sample \<open>on_states\<close> that the draw without
  replacement can return, \<open>dj_function\<close> on the balanced branch returns an oracle, with or
  without the output flip, and reading its output line after a run on each of the
  \<open>2 ^ n\<close> basis inputs gives 1 for exactly \<open>2 ^ n div 2\<close> of them and 0 for exactly
  \<open>2 ^ n div 2\<close> of them.
\<close>

theorem balanced_invariant:
  assumes "1 \<le> n" "valid_on_states n on_states"
  shows "\<exists>function. dj_function (int n) flip_output False on_states = Inr function
       \<and> length (filter (\<lambda>x. oracle_output function x = Some True) [0..<2 ^ n]) = 2 ^ n div 2
       \<and> length (filter (\<lambda>x. oracle_output function x = Some False) [0..<2 ^ n]) = 2 ^ n div 2"
proof -
  let ?f = "projr (dj_function (int n) flip_output False on_states)"
  let ?in = "\<lambda>x. mask n XOR take_bit n x \<in> set on_states"
  from assms(2) have d: "distinct on_states" and r: "list_all (\<lambda>s. s < 2 ^ n) on_states"
    and l: "length on_states = 2 ^ n div 2"
    by (simp_all add: valid_on_states_def)
  have out: "\<And>x. x \<in> set [0..<2 ^ n] \<Longrightarrow>
      oracle_output ?f x = Some (flip_output \<noteq> ?in x)"
    using oracle_output_dj_function [OF d r] by (simp add: oracle_fun_def)
  have ins: "length (filter ?in [0..<2 ^ n]) = 2 ^ n div 2"
    using count_complements [OF d r] l by simp
  have "length (filter ?in [0..<2 ^ n]) + length (filter (\<lambda>x. \<not> ?in x) [0..<2 ^ n])
      = length [0..<(2::nat) ^ n]"
    by (rule sum_length_filter_compl)
  then have outs: "length (filter (\<lambda>x. \<not> ?in x) [0..<2 ^ n]) = 2 ^ n div 2"
    using ins half_of_power [OF assms(1)] by simp
  have t: "filter (\<lambda>x. oracle_output ?f x = Some True) [0..<2 ^ n]
      = filter (\<lambda>x. flip_output \<noteq> ?in x) [0..<2 ^ n]"
    by (rule filter_cong [OF refl]) (simp only: out option.inject simp_thms)
  have f: "filter (\<lambda>x. oracle_output ?f x = Some False) [0..<2 ^ n]
      = filter (\<lambda>x. flip_output = ?in x) [0..<2 ^ n]"
    by (rule filter_cong [OF refl]) (simp only: out option.inject simp_thms)
  have counts: "length (filter (\<lambda>x. oracle_output ?f x = Some True) [0..<2 ^ n]) = 2 ^ n div 2
       \<and> length (filter (\<lambda>x. oracle_output ?f x = Some False) [0..<2 ^ n]) = 2 ^ n div 2"
    unfolding t f using ins outs by (cases "flip_output") simp_all
  have "dj_function (int n) flip_output False on_states = Inr ?f"
    by (rule dj_function_returns)
  with counts show ?thesis by blast
qed

theorem balanced_invariant_witness:
  "(1::nat) \<le> 2 \<and> valid_on_states 2 [1, 2]
   \<and> (\<exists>function. dj_function 2 True False [1, 2] = Inr function
        \<and> map (oracle_output function) [0..<4] = [Some True, Some False, Some False, Some True]
        \<and> length (filter (\<lambda>x. oracle_output function x = Some True) [0..<2 ^ 2]) = 2 ^ 2 div 2
        \<and> length (filter (\<lambda>x. oracle_output function x = Some False) [0..<2 ^ 2])
            = 2 ^ 2 div 2)"
proof -
  have n: "(1::nat) \<le> 2" by simp
  have v: "valid_on_states 2 [1, 2]" by (simp add: valid_on_states_def)
  from balanced_invariant [OF n v, of True]
  obtain g where f: "dj_function 2 True False [1, 2] = Inr g"
    and c: "length (filter (\<lambda>x. oracle_output g x = Some True) [0..<2 ^ 2]) = 2 ^ 2 div 2"
      "length (filter (\<lambda>x. oracle_output g x = Some False) [0..<2 ^ 2]) = 2 ^ 2 div 2"
    by auto
  have "map (oracle_output (projr (dj_function 2 True False [1, 2]))) [0..<4]
      = [Some True, Some False, Some False, Some True]"
    by code_simp
  with f have m: "map (oracle_output g) [0..<4]
      = [Some True, Some False, Some False, Some True]"
    by simp
  show ?thesis
    by (intro conjI exI [of _ g]) (rule n v f c m)+
qed

section \<open>Classical runs on the backend\<close>

lemma gate_perm_involution: "reversible g \<Longrightarrow> gate_perm g (gate_perm g b) = b"
  by (cases g) (auto simp add: flip_bit_twice bit_flip_bit_iff list_all_iff)

lemma gate_perm_eq_iff: "reversible g \<Longrightarrow> gate_perm g b = t \<longleftrightarrow> b = gate_perm g t"
  using gate_perm_involution by metis

lemma apply_gate_reversible:
  "reversible g \<Longrightarrow> apply_gate g (k, a) = (k, \<lambda>b. a (gate_perm g b))"
  by (cases g) simp_all

lemma run_gates_Nil: "run_gates [] s = s"
  by (simp add: run_gates_def)

lemma run_gates_Cons: "run_gates (g # gs) s = run_gates gs (apply_gate g s)"
  by (simp add: run_gates_def)

lemma run_gates_append: "run_gates (gs @ hs) s = run_gates hs (run_gates gs s)"
  by (simp add: run_gates_def)

lemma run_gates_basis:
  "list_all reversible gs \<Longrightarrow>
     run_gates gs (k, \<lambda>b. if b = t then 1 else 0)
       = (k, \<lambda>b. if b = perm_run gs t then 1 else 0)"
proof (induction gs arbitrary: t)
  case Nil
  show ?case by (simp add: run_gates_Nil perm_run_Nil)
next
  case (Cons g gs)
  from Cons.prems have g: "reversible g" and gs: "list_all reversible gs" by simp_all
  have "apply_gate g (k, \<lambda>b. if b = t then 1 else 0)
      = (k, \<lambda>b. if b = gate_perm g t then 1 else (0::int))"
    by (simp add: apply_gate_reversible [OF g] gate_perm_eq_iff [OF g])
  then show ?case
    by (simp only: run_gates_Cons perm_run_Cons Cons.IH [OF gs])
qed

lemma measured_bits_reversible:
  "list_all reversible gs \<Longrightarrow> measured_bits gs b cl = cl"
  by (induction gs b cl rule: measured_bits.induct) simp_all

lemma measured_bits_append:
  "measured_bits (gs @ hs) b cl = measured_bits hs b (measured_bits gs b cl)"
  by (induction gs b cl rule: measured_bits.induct) simp_all

lemma weight_basis:
  assumes "snd (statevector qc) = (\<lambda>b. if b = t then 1 else 0)"
  shows "weight qc E = (if t < 2 ^ num_qubits qc \<and> E (memory_of qc t) then 1 else 0)"
proof -
  have "weight qc E
      = (\<Sum>b\<leftarrow>[0..<2 ^ num_qubits qc]. if b = t then (if E (memory_of qc t) then 1 else 0) else 0)"
    unfolding weight_def assms
    by (rule arg_cong [where f = sum_list]) (rule map_cong [OF refl], simp)
  also have "\<dots> = (\<Sum>b\<in>{0..<2 ^ num_qubits qc}.
       if b = t then (if E (memory_of qc t) then 1 else 0) else 0)"
    by (simp add: interv_sum_list_conv_sum_set_nat)
  also have "\<dots> = (if t < 2 ^ num_qubits qc \<and> E (memory_of qc t) then 1 else 0)"
    by (simp add: sum.delta)
  finally show ?thesis .
qed

lemma born_sample_basis:
  assumes "statevector qc = (0, \<lambda>b. if b = t then 1 else 0)"
  shows "born_sample qc ms \<longleftrightarrow> t < 2 ^ num_qubits qc \<and> ms = [memory_of qc t]"
proof -
  have s: "snd (statevector qc) = (\<lambda>b. if b = t then 1 else 0)" and k: "fst (statevector qc) = 0"
    by (simp_all add: assms)
  have p: "0 < prob qc (\<lambda>s. s = m) \<longleftrightarrow> t < 2 ^ num_qubits qc \<and> m = memory_of qc t" for m
    by (auto simp add: prob_def k weight_basis [OF s])
  show ?thesis
    by (cases ms rule: list.exhaust; cases "tl ms")
       (auto simp add: born_sample_def p split: list.splits)
qed


lemma reversible_flips: "list_all reversible (map X is)"
  by (induction "is") simp_all

lemma reversible_on_state_step:
  "list_all reversible (data (on_state_step n (QuantumCircuit 0 0) s))"
  by (simp add: on_state_step_data QuantumCircuit_def reversible_flips)

lemma reversible_dj_function:
  "list_all reversible (data (projr (dj_function (int n) flip_output constant ss)))"
  using reversible_on_state_step by (auto simp add: dj_function_data list_all_iff)

lemma classical_query_data:
  "data (classical_query function n x)
     = map X (filter (bit x) [0..<length (bin_str x)]) @ data function @ [Measure n 0]"
  by (simp add: classical_query_def Let_def add_cx_bin_str_data QuantumCircuit_def compose_def
      measure_gate_def append_gate_def)

lemma classical_query_sizes:
  "num_qubits (classical_query function n x) = n + 1
   \<and> num_clbits (classical_query function n x) = 1"
  by (simp add: classical_query_def Let_def add_cx_eq QuantumCircuit_def compose_def
      measure_gate_def append_gate_def)

lemma flip_bit_less:
  fixes b :: nat
  assumes "b < 2 ^ m" "q < m"
  shows "flip_bit q b < 2 ^ m"
proof -
  have "take_bit m (flip_bit q b) = flip_bit q b"
  proof (rule bit_eqI)
    fix i
    show "bit (take_bit m (flip_bit q b)) i = bit (flip_bit q b) i"
      using assms not_bit_of_bound [of b m i]
      by (cases "i < m") (auto simp add: bit_take_bit_iff bit_flip_bit_iff)
  qed
  then show ?thesis by (metis take_bit_nat_less_exp)
qed

text \<open>One classical query of a generated oracle has one possible answer: the value of
  \<open>oracle_fun\<close> at the queried input.\<close>

lemma born_sample_classical_query:
  assumes "distinct ss" "list_all (\<lambda>s. s < 2 ^ n) ss" "x < 2 ^ n"
  shows "born_sample
           (classical_query (projr (dj_function (int n) flip_output constant ss)) n x) ms
         \<longleftrightarrow> ms = [[bit_char (oracle_fun n flip_output constant ss x)]]"
proof -
  let ?f = "projr (dj_function (int n) flip_output constant ss)"
  let ?c = "classical_query ?f n x"
  let ?gs = "map X (filter (bit x) [0..<length (bin_str x)]) @ data ?f"
  let ?t = "if oracle_fun n flip_output constant ss x then flip_bit n x else x"
  have rev: "list_all reversible ?gs"
    by (simp add: reversible_flips reversible_dj_function)
  have tb: "take_bit (length (bin_str x)) x = x"
    using bin_str_bound by (simp add: take_bit_nat_eq_self)
  have t: "perm_run ?gs 0 = ?t"
    by (simp add: perm_run_append perm_run_flips tb perm_run_dj_function [OF assms(1,2)])
  have "statevector ?c = apply_gate (Measure n 0) (run_gates ?gs initial)"
    by (simp add: statevector_def classical_query_data run_gates_append run_gates_Cons
        run_gates_Nil)
  also have "\<dots> = (0, \<lambda>b. if b = ?t then 1 else 0)"
    unfolding initial_def run_gates_basis [OF rev] t by simp
  finally have sv: "statevector ?c = (0, \<lambda>b. if b = ?t then 1 else 0)" .
  have nb: "\<not> bit x n" using assms(3) not_bit_of_bound [of x n n] by simp
  have "x < 2 ^ (n + 1)" using assms(3) by simp
  then have lt: "?t < 2 ^ num_qubits ?c"
    using flip_bit_less [of x "n + 1" n] by (simp add: classical_query_sizes)
  have mem: "memory_of ?c ?t = [bit_char (oracle_fun n flip_output constant ss x)]"
    using nb
    by (simp add: memory_of_def classical_query_sizes classical_query_data measured_bits_append
        measured_bits_reversible reversible_flips reversible_dj_function bit_flip_bit_iff)
  show ?thesis
    unfolding born_sample_basis [OF sv] using lt mem by simp
qed

subsection \<open>The loop of the classical procedure\<close>


lemma classical_loop_differs:
  assumes "\<forall>s\<in>set pre. backend (classical_query function n s) = [v]"
    and "backend (classical_query function n s) = [w]" "w \<noteq> v"
    and "set outputs \<subseteq> {v}" "outputs \<noteq> [] \<or> pre \<noteq> []"
  shows "classical_loop backend function n (pre @ s # post) k outputs
       = Inr (''balanced'', k + length pre + 1)"
  using assms(1,4,5)
proof (induction pre arbitrary: k outputs)
  case Nil
  then have "outputs \<noteq> []" "w \<notin> set outputs" using assms(3) by auto
  then show ?case using assms(2) by (simp add: Let_def)
next
  case (Cons p pre)
  from Cons.prems have b: "backend (classical_query function n p) = [v]"
    and rest: "\<forall>s\<in>set pre. backend (classical_query function n s) = [v]" by simp_all
  have stay: "\<not> (outputs \<noteq> [] \<and> v \<notin> set outputs)"
    using Cons.prems(2) by (cases outputs) auto
  have sub: "set (outputs @ [v]) \<subseteq> {v}" using Cons.prems(2) by simp
  have ne: "outputs @ [v] \<noteq> [] \<or> pre \<noteq> []" by simp
  from Cons.IH [OF rest sub ne] stay b show ?case by (simp add: Let_def)
qed

subsection \<open>The counts of the classical procedure\<close>

lemma upt_split:
  assumes "j \<le> m"
  shows "[0..<m] = [0..<j] @ [j..<m]"
proof -
  from assms obtain k where k: "m = j + k" by (auto simp add: le_iff_add)
  show ?thesis unfolding k by (rule upt_add_eq_append) simp
qed

lemma half_power_less:
  assumes "1 \<le> n"
  shows "(2::nat) ^ (n - 1) + 1 \<le> 2 ^ n" "(2::nat) ^ n div 2 = 2 ^ (n - 1)"
proof -
  from assms obtain m where m: "n = Suc m" by (cases n) auto
  show "(2::nat) ^ (n - 1) + 1 \<le> 2 ^ n" unfolding m by simp
  show "(2::nat) ^ n div 2 = 2 ^ (n - 1)" unfolding m by simp
qed

lemma oracle_fun_balanced:
  assumes "1 \<le> n" "valid_on_states n ss"
  shows "length (filter (\<lambda>x. oracle_fun n flip_output False ss x = v) [0..<2 ^ n]) = 2 ^ n div 2"
proof -
  let ?in = "\<lambda>x. mask n XOR take_bit n x \<in> set ss"
  from assms(2) have d: "distinct ss" and r: "list_all (\<lambda>s. s < 2 ^ n) ss"
    and l: "length ss = 2 ^ n div 2"
    by (simp_all add: valid_on_states_def)
  have ins: "length (filter ?in [0..<2 ^ n]) = 2 ^ n div 2"
    using count_complements [OF d r] l by simp
  have "length (filter ?in [0..<2 ^ n]) + length (filter (\<lambda>x. \<not> ?in x) [0..<2 ^ n])
      = length [0..<(2::nat) ^ n]"
    by (rule sum_length_filter_compl)
  then have outs: "length (filter (\<lambda>x. \<not> ?in x) [0..<2 ^ n]) = 2 ^ n div 2"
    using ins half_of_power [OF assms(1)] by simp
  have "(\<lambda>x. oracle_fun n flip_output False ss x = v) = ?in
      \<or> (\<lambda>x. oracle_fun n flip_output False ss x = v) = (\<lambda>x. \<not> ?in x)"
    by (cases "flip_output"; cases v) (simp_all add: oracle_fun_def fun_eq_iff)
  then show ?thesis using ins outs by auto
qed

text \<open>Among the first \<open>2 ^ (n - 1) + 1\<close> inputs of a balanced oracle one differs from input 0.\<close>

lemma first_difference:
  assumes "1 \<le> n" "valid_on_states n ss"
  shows "\<exists>j. 1 \<le> j \<and> j \<le> 2 ^ (n - 1)
           \<and> (\<forall>x<j. oracle_fun n flip_output False ss x = oracle_fun n flip_output False ss 0)
           \<and> oracle_fun n flip_output False ss j \<noteq> oracle_fun n flip_output False ss 0"
proof -
  let ?g = "oracle_fun n flip_output False ss"
  let ?P = "\<lambda>x. ?g x = ?g 0"
  let ?N = "(2::nat) ^ (n - 1) + 1"
  have ex: "\<exists>x. x < ?N \<and> \<not> ?P x"
  proof (rule ccontr)
    assume none: "\<not> (\<exists>x. x < ?N \<and> \<not> ?P x)"
    have all: "?P x" if "x \<in> set [0..<?N]" for x
    proof -
      from that have "x < ?N" by (simp only: set_upt atLeastLessThan_iff)
      with none show ?thesis by blast
    qed
    have parts: "[0..<2 ^ n] = [0..<?N] @ [?N..<2 ^ n]"
      using half_power_less(1) [OF assms(1)] by (rule upt_split)
    have "filter ?P [0..<?N] = [0..<?N]"
      by (rule filter_True, rule ballI, rule all)
    then have "length (filter ?P [0..<?N]) = ?N" by simp
    moreover have "length (filter ?P [0..<2 ^ n])
        = length (filter ?P [0..<?N]) + length (filter ?P [?N..<2 ^ n])"
      by (subst parts) (simp only: filter_append length_append)
    moreover have "length (filter ?P [0..<2 ^ n]) = 2 ^ n div 2"
      by (rule oracle_fun_balanced [OF assms])
    moreover note half_power_less(2) [OF assms(1)]
    ultimately show False by simp
  qed
  define j where "j = (LEAST x. \<not> ?P x)"
  from ex obtain x where x: "x < ?N" "\<not> ?P x" by blast
  have nj: "\<not> ?P j" unfolding j_def using x(2) by (rule LeastI)
  have le: "j \<le> x" unfolding j_def using x(2) by (rule Least_le)
  have before: "\<forall>y<j. ?P y" unfolding j_def using not_less_Least by blast
  have "j \<noteq> 0" using nj by (cases j) auto
  then have j1: "1 \<le> j" by simp
  have j2: "j \<le> 2 ^ (n - 1)" using le x(1) by simp
  from j1 j2 before nj show ?thesis by blast
qed




text \<open>
  Claim C5. For every \<open>n \<ge> 1\<close> and every oracle that \<open>dj_function\<close> returns on the balanced
  branch, with a backend that answers each query by a sample of its Born distribution,
  \<open>dj_classical_algorithm\<close> returns \<open>balanced\<close> with a query count \<open>k\<close> of at most
  \<open>2 ^ (n - 1) + 1\<close>, and it stops at the first query whose output differs from the
  recorded ones: the inputs \<open>0, ..., k - 2\<close> all give the output of input 0, and input
  \<open>k - 1\<close>, the last one queried, gives the other output.
\<close>

theorem classical_balanced_queries:
  assumes "1 \<le> n" "valid_on_states n on_states"
    and "dj_function (int n) flip_output False on_states = Inr function"
    and "list_all (\<lambda>state. born_sample (classical_query function n state)
                              (backend (classical_query function n state)))
           [0..<2 ^ (n - 1) + 1]"
  shows "\<exists>k. dj_classical_algorithm backend function = Inr (''balanced'', k)
           \<and> 2 \<le> k \<and> k \<le> 2 ^ (n - 1) + 1
           \<and> (\<forall>x<k - 1. oracle_output function x = oracle_output function 0)
           \<and> oracle_output function (k - 1) \<noteq> oracle_output function 0"
proof -
  let ?f = "projr (dj_function (int n) flip_output False on_states)"
  let ?g = "oracle_fun n flip_output False on_states"
  let ?N = "(2::nat) ^ (n - 1) + 1"
  from assms(2) have d: "distinct on_states" and r: "list_all (\<lambda>s. s < 2 ^ n) on_states"
    by (simp_all add: valid_on_states_def)
  have f: "function = ?f" using assms(3) by (simp only: sum.sel)
  have size: "num_qubits function = n + 1" unfolding f by (simp only: dj_function_sizes)
  have unfold: "dj_classical_algorithm backend function
      = classical_loop backend function n [0..<?N] 0 []"
    using assms(1) by (simp add: dj_classical_algorithm_def size Let_def)
  have answer: "backend (classical_query function n s) = [[bit_char (?g s)]]" if "s < ?N" for s
  proof -
    from that have "s < 2 ^ n" using half_power_less(1) [OF assms(1)] by (rule less_le_trans)
    then have "born_sample (classical_query ?f n s) ms \<longleftrightarrow> ms = [[bit_char (?g s)]]" for ms
      by (rule born_sample_classical_query [OF d r])
    moreover have "born_sample (classical_query function n s)
        (backend (classical_query function n s))"
    proof -
      from that have "s \<in> set [0..<?N]" by (simp only: set_upt atLeastLessThan_iff le0 simp_thms)
      with assms(4) show ?thesis unfolding list_all_iff by blast
    qed
    ultimately show ?thesis unfolding f by simp
  qed
  have out: "oracle_output function s = Some (?g s)" if "s < ?N" for s
  proof -
    from that have "s < 2 ^ n" using half_power_less(1) [OF assms(1)] by (rule less_le_trans)
    then show ?thesis unfolding f by (rule oracle_output_dj_function [OF d r])
  qed
  from first_difference [OF assms(1,2), of flip_output]
  obtain j where j: "1 \<le> j" "j \<le> 2 ^ (n - 1)" "\<forall>x<j. ?g x = ?g 0" "?g j \<noteq> ?g 0"
    by blast
  have "j \<le> ?N" using j(2) by simp
  then have "[0..<?N] = [0..<j] @ [j..<?N]" by (rule upt_split)
  moreover have "[j..<?N] = j # [Suc j..<?N]" using j(2) by (simp add: upt_conv_Cons)
  ultimately have states: "[0..<?N] = [0..<j] @ j # [Suc j..<?N]" by simp
  have same: "?g s = ?g 0" if "s < j" for s using j(3) that by blast
  have pre: "\<forall>s\<in>set [0..<j]. backend (classical_query function n s) = [[bit_char (?g 0)]]"
  proof
    fix s
    assume "s \<in> set [0..<j]"
    then have sj: "s < j" by simp
    then have "s < ?N" using j(2) by simp
    then have "backend (classical_query function n s) = [[bit_char (?g s)]]" by (rule answer)
    then show "backend (classical_query function n s) = [[bit_char (?g 0)]]"
      by (simp only: same [OF sj])
  qed
  have at: "backend (classical_query function n j) = [[bit_char (?g j)]]"
    using j(2) answer by simp
  have ne: "[bit_char (?g j)] \<noteq> [bit_char (?g 0)]"
    using j(4) by (simp add: bit_char_def)
  have "classical_loop backend function n ([0..<j] @ j # [Suc j..<?N]) 0 []
      = Inr (''balanced'', 0 + length [0..<j] + 1)"
    using pre at ne
  proof (rule classical_loop_differs)
    show "set [] \<subseteq> {[bit_char (?g 0)]}" by simp
    show "[] \<noteq> [] \<or> [0..<j] \<noteq> []" using j(1) by simp
  qed
  moreover have "0 + length [0..<j] + 1 = j + 1" by simp
  ultimately have result: "dj_classical_algorithm backend function = Inr (''balanced'', j + 1)"
    by (simp only: unfold states)
  have out0: "oracle_output function 0 = Some (?g 0)" by (rule out) simp
  have "j < ?N" using j(2) by simp
  then have outj: "oracle_output function j = Some (?g j)" by (rule out)
  have early: "\<forall>x<j + 1 - 1. oracle_output function x = oracle_output function 0"
  proof (intro allI impI)
    fix x
    assume "x < j + 1 - 1"
    then have xj: "x < j" by simp
    then have "x < ?N" using j(2) by simp
    then have "oracle_output function x = Some (?g x)" by (rule out)
    then show "oracle_output function x = oracle_output function 0"
      by (simp only: same [OF xj] out0)
  qed
  have last: "oracle_output function (j + 1 - 1) \<noteq> oracle_output function 0"
    using j(4) by (simp add: outj out0)
  have bounds: "2 \<le> j + 1" "j + 1 \<le> 2 ^ (n - 1) + 1" using j(1,2) by simp_all
  from result bounds early last show ?thesis by blast
qed


theorem classical_balanced_queries_witness:
  "(1::nat) \<le> 2 \<and> valid_on_states 2 [1, 2]
   \<and> (\<exists>f. dj_function 2 False False [1, 2] = Inr f
        \<and> list_all
            (\<lambda>state. born_sample (classical_query f 2 state)
               [memory_of (classical_query f 2 state)
                  (perm_run (data (classical_query f 2 state)) 0)])
            [0, 1, 2]
        \<and> map (oracle_output f) [0, 1, 2] = [Some False, Some True, Some True]
        \<and> dj_classical_algorithm (\<lambda>qc. [memory_of qc (perm_run (data qc) 0)]) f
            = Inr (''balanced'', 2))"
proof -
  let ?f = "projr (dj_function (int 2) False False [1, 2])"
  let ?b = "\<lambda>qc. [memory_of qc (perm_run (data qc) 0)]"
  have n: "(1::nat) \<le> 2" by simp
  have v: "valid_on_states 2 [1, 2]" by (simp add: valid_on_states_def)
  have f: "dj_function (int 2) False False [1, 2] = Inr ?f" by (rule dj_function_returns)
  have d: "distinct [1, 2::nat]" "list_all (\<lambda>s. s < 2 ^ 2) [1, 2::nat]" by simp_all
  have m0: "?b (classical_query ?f 2 0) = [[bit_char (oracle_fun 2 False False [1, 2] 0)]]"
    by code_simp
  have m1: "?b (classical_query ?f 2 1) = [[bit_char (oracle_fun 2 False False [1, 2] 1)]]"
    by code_simp
  have m2: "?b (classical_query ?f 2 2) = [[bit_char (oracle_fun 2 False False [1, 2] 2)]]"
    by code_simp
  have q: "born_sample (classical_query ?f 2 x) [[bit_char (oracle_fun 2 False False [1, 2] x)]]"
    if "x < 2 ^ 2" for x
    by (rule iffD2 [OF born_sample_classical_query [OF d that]]) (rule refl)
  have s0: "born_sample (classical_query ?f 2 0) (?b (classical_query ?f 2 0))"
    unfolding m0 by (rule q) simp
  have s1: "born_sample (classical_query ?f 2 1) (?b (classical_query ?f 2 1))"
    unfolding m1 by (rule q) simp
  have s2: "born_sample (classical_query ?f 2 2) (?b (classical_query ?f 2 2))"
    unfolding m2 by (rule q) simp
  have l: "[0..<2 ^ (2 - 1) + 1] = [0, 1, 2::nat]" by code_simp
  have b: "list_all (\<lambda>state. born_sample (classical_query ?f 2 state)
                                (?b (classical_query ?f 2 state)))
             [0..<2 ^ (2 - 1) + 1]"
    unfolding l using s0 s1 s2 by simp
  have outs: "map (oracle_output ?f) [0, 1, 2] = [Some False, Some True, Some True]"
    by code_simp
  from classical_balanced_queries [OF n v f b]
  obtain k where k: "dj_classical_algorithm ?b ?f = Inr (''balanced'', k)" "2 \<le> k"
    "\<forall>x<k - 1. oracle_output ?f x = oracle_output ?f 0" by blast
  have "\<not> 1 < k - 1"
  proof
    assume "1 < k - 1"
    with k(3) have "oracle_output ?f 1 = oracle_output ?f 0" by blast
    with outs show False by simp
  qed
  with k(2) have "k = 2" by simp
  with k(1) have r: "dj_classical_algorithm ?b ?f = Inr (''balanced'', 2)" by simp
  have f': "dj_function 2 False False [1, 2] = Inr ?f" using f by simp
  have b': "list_all (\<lambda>state. born_sample (classical_query ?f 2 state)
               [memory_of (classical_query ?f 2 state)
                  (perm_run (data (classical_query ?f 2 state)) 0)])
            [0, 1, 2]"
    using b unfolding l .
  show ?thesis
    by (intro conjI exI [of _ ?f]) (rule n v f' b' outs r)+
qed

end
